theory Spec2Isabelle
  imports Main
begin

section \<open>The streaming pipeline of 03_events_streams/streams-edge.js\<close>

text \<open>
  The program defines three object-mode stream stages and wires them with the host's
  \<open>pipeline\<close> helper. Each stage is one hook that the host stream engine calls:
  \<open>DataSource._read\<close>, \<open>UppercaseTransform._transform\<close> and \<open>DataSink._write\<close>.
  The hooks are embedded below as functions on an explicit program state. The host
  engine (when it calls which hook) is not part of the repository: it is modelled as a
  schedule, a list of host actions, and every result about runs is proved for all
  schedules.
\<close>

subsection \<open>Values, errors and records\<close>

text \<open>
  A payload is a JavaScript value. Calling \<open>toUpperCase\<close> on anything but a string
  throws a TypeError; the error value remembers the receiver it was thrown for.
\<close>

datatype jsvalue = JString string | JNumber int | JBoolean bool | JNull | JUndefined

datatype jserror = TypeError jsvalue

text \<open>
  String.prototype.toUpperCase on ASCII text: the code units \<open>a\<close> .. \<open>z\<close> (97 .. 122)
  go to \<open>A\<close> .. \<open>Z\<close>, every other code unit below 128 is kept. Strings here are lists
  of 8-bit characters, and on code units from 128 on the definition is not the host's
  function (which maps 0xE9 to 0xC9 and 0xDF to two code units, for example). What is
  said below about the upper-cased payload itself is therefore said of ASCII payloads
  only; the program's own payloads are the letters \<open>a\<close> .. \<open>e\<close>.
\<close>

definition upper_char :: "char \<Rightarrow> char" where
  "upper_char c =
     (if 97 \<le> (of_char c :: nat) \<and> (of_char c :: nat) \<le> 122
      then char_of ((of_char c :: nat) - 32) else c)"

definition toUpperCase :: "string \<Rightarrow> string" where
  "toUpperCase s = map upper_char s"

text \<open>The method call \<open>chunk.data.toUpperCase()\<close> of line 53.\<close>

fun call_toUpperCase :: "jsvalue \<Rightarrow> jserror + jsvalue" where
  "call_toUpperCase (JString s) = Inr (JString (toUpperCase s))"
| "call_toUpperCase v = Inl (TypeError v)"

text \<open>
  The record object \<open>{ data, timestamp }\<close> of line 27, to which the transform adds
  \<open>transformedAt\<close> (line 54); \<open>None\<close> is the absent property. The record type is
  extensible: \<open>chunk.more\<close> stands for any further property an object may carry.
\<close>

record chunk =
  data :: jsvalue
  timestamp :: int
  transformedAt :: "int option"

text \<open>
  Lines 53 and 54 on one object, \<open>now\<close> being the reading of \<open>Date.now()\<close>: the payload
  is replaced by its upper-cased form and \<open>transformedAt\<close> is set; when \<open>toUpperCase\<close>
  throws, no assignment has happened.
\<close>

definition transform_chunk :: "int \<Rightarrow> 'a chunk_scheme \<Rightarrow> jserror + 'a chunk_scheme" where
  "transform_chunk now c =
     (case call_toUpperCase (data c) of
        Inl e \<Rightarrow> Inl e
      | Inr v \<Rightarrow> Inr (c\<lparr>data := v, transformedAt := Some now\<rparr>))"

subsection \<open>Program state and observable events\<close>

datatype stage = Source | Transform | Sink

datatype field = Data | TransformedAt

text \<open>
  The trace records what the hooks do, in statement order: the four per-record log
  lines (each with the JSON snapshot of the object at that moment), every field
  assignment to a record object, every \<open>this.push\<close>, and the two closing lines of
  \<open>run\<close>. Objects are named by their address in the heap.
\<close>

datatype event =
    Starting
  | Pushing chunk
  | Received chunk
  | Transformed chunk
  | FinalResult chunk
  | Assign stage nat field
  | Push stage nat
  | PushNull
  | PipelineFinished
  | PipelineFailed jserror

text \<open>
  The promise of \<open>pipeline(...)\<close>: pending, pending with a stage error raised but the
  streams not yet torn down, resolved, or rejected with the error.
\<close>

datatype status = Running | Errored jserror | Completed | Failed jserror

text \<open>
  \<open>source_data\<close> and \<open>index\<close> are the fields \<open>this.data\<close> and \<open>this.index\<close> of the
  DataSource. \<open>heap\<close> holds the record objects, an object's address being its position;
  the two buffers hold the addresses of the objects pushed by the source and not yet
  handed to the transform, and pushed by the transform and not yet handed to the sink.
  \<open>ticks\<close> counts the calls of \<open>Date.now()\<close> so far, the host clock being a function
  from that count to the reading.
\<close>

record pipeline_state =
  source_data :: "jsvalue list"
  index :: nat
  source_ended :: bool
  heap :: "chunk list"
  readable_buffer :: "nat list"
  transform_buffer :: "nat list"
  ticks :: nat
  status :: status
  trace :: "event list"

subsection \<open>The three hooks\<close>

text \<open>
  \<open>DataSource._read\<close> (lines 20 to 34). Past the end of the data it pushes \<open>null\<close>.
  Otherwise it builds the record, logs it, pushes it and advances the index. The
  closing \<open>await setTimeout(200)\<close> comes after the push and changes no state; the host
  does not wait for the promise the hook returns.
\<close>

definition DataSource_read :: "(nat \<Rightarrow> int) \<Rightarrow> pipeline_state \<Rightarrow> pipeline_state" where
  "DataSource_read clock st =
     (if index st \<ge> length (source_data st) then
        st\<lparr>source_ended := True, trace := trace st @ [PushNull]\<rparr>
      else
        let c = \<lparr>data = source_data st ! index st, timestamp = clock (ticks st),
                 transformedAt = None\<rparr>;
            a = length (heap st)
        in st\<lparr>index := index st + 1,
               heap := heap st @ [c],
               readable_buffer := readable_buffer st @ [a],
               ticks := Suc (ticks st),
               trace := trace st @ [Pushing c, Push Source a]\<rparr>)"

text \<open>
  \<open>UppercaseTransform._transform\<close> (lines 49 to 66) on the object at address \<open>a\<close>. The
  result pairs the argument of \<open>callback\<close> (\<open>None\<close> for the plain \<open>callback()\<close>) with
  the new state. The object is updated in place and the same object is pushed on.
\<close>

definition UppercaseTransform_transform ::
    "(nat \<Rightarrow> int) \<Rightarrow> nat \<Rightarrow> pipeline_state \<Rightarrow> jserror option \<times> pipeline_state" where
  "UppercaseTransform_transform clock a st =
     (let c = heap st ! a;
          st1 = st\<lparr>trace := trace st @ [Received c]\<rparr>
      in case transform_chunk (clock (ticks st1)) c of
           Inl e \<Rightarrow> (Some e, st1)
         | Inr c' \<Rightarrow>
             (None, st1\<lparr>heap := (heap st1)[a := c'],
                        transform_buffer := transform_buffer st1 @ [a],
                        ticks := Suc (ticks st1),
                        trace := trace st1 @ [Assign Transform a Data,
                                              Assign Transform a TransformedAt,
                                              Transformed c', Push Transform a]\<rparr>))"

text \<open>\<open>DataSink._write\<close> (lines 78 to 82): log the object, acknowledge.\<close>

definition DataSink_write :: "nat \<Rightarrow> pipeline_state \<Rightarrow> pipeline_state" where
  "DataSink_write a st = st\<lparr>trace := trace st @ [FinalResult (heap st ! a)]\<rparr>"

subsection \<open>The host engine as a schedule\<close>

text \<open>
  The program has no loop of its own over the records: \<open>run\<close> hands the three streams
  to the host's \<open>pipeline\<close>, and the host decides when each hook runs. The model leaves
  that decision open. A schedule is a list of host actions, each enabled only where the
  stream contract allows the call, and the results below hold for every schedule.

  \<^item> \<open>Read\<close> calls \<open>_read\<close>. The host calls it whenever the source's buffer is below
    its high-water mark (16 objects in object mode, which \<open>super({ objectMode: true })\<close>
    selects), whether or not the records pushed earlier have been transformed or
    consumed, and it does not wait for the promise the asynchronous hook returns. It is
    never called after the source pushed \<open>null\<close>. The high-water mark itself is left
    out: it only removes schedules.
  \<^item> \<open>Xform\<close> hands the oldest buffered source record to \<open>_transform\<close>. An error passed
    to the callback puts the pipeline into \<open>Errored\<close>; the writable side of the transform
    is then in error and no further record is transformed.
  \<^item> \<open>Write\<close> hands the oldest transformed record to \<open>_write\<close>.
  \<^item> \<open>Finish\<close> resolves the promise once the source has ended and both buffers are
    drained; \<open>run\<close> logs success.
  \<^item> \<open>Teardown\<close> destroys the streams after an error and rejects the promise with that
    error; \<open>run\<close> logs it. The host reports the error and destroys the streams on later
    turns of its event loop, so between the error and the teardown it may still run
    reads and writes.
\<close>

datatype action = Read | Xform | Write | Finish | Teardown

fun active :: "status \<Rightarrow> bool" where
  "active Running = True"
| "active (Errored e) = True"
| "active _ = False"

fun step :: "(nat \<Rightarrow> int) \<Rightarrow> action \<Rightarrow> pipeline_state \<Rightarrow> pipeline_state option" where
  "step clock Read st =
     (if active (status st) \<and> \<not> source_ended st then Some (DataSource_read clock st)
      else None)"
| "step clock Xform st =
     (if status st = Running then
        (case readable_buffer st of
           [] \<Rightarrow> None
         | a # q \<Rightarrow>
             if a < length (heap st) then
               (case UppercaseTransform_transform clock a (st\<lparr>readable_buffer := q\<rparr>) of
                  (None, st') \<Rightarrow> Some st'
                | (Some e, st') \<Rightarrow> Some (st'\<lparr>status := Errored e\<rparr>))
             else None)
      else None)"
| "step clock Write st =
     (if active (status st) then
        (case transform_buffer st of
           [] \<Rightarrow> None
         | a # q \<Rightarrow>
             if a < length (heap st) then Some (DataSink_write a (st\<lparr>transform_buffer := q\<rparr>))
             else None)
      else None)"
| "step clock Finish st =
     (if status st = Running \<and> source_ended st \<and> readable_buffer st = []
         \<and> transform_buffer st = []
      then Some (st\<lparr>status := Completed, trace := trace st @ [PipelineFinished]\<rparr>)
      else None)"
| "step clock Teardown st =
     (case status st of
        Errored e \<Rightarrow> Some (st\<lparr>status := Failed e, trace := trace st @ [PipelineFailed e]\<rparr>)
      | _ \<Rightarrow> None)"

fun exec :: "(nat \<Rightarrow> int) \<Rightarrow> action list \<Rightarrow> pipeline_state \<Rightarrow> pipeline_state option" where
  "exec clock [] st = Some st"
| "exec clock (a # as) st =
     (case step clock a st of None \<Rightarrow> None | Some st' \<Rightarrow> exec clock as st')"

text \<open>
  \<open>run\<close> (lines 89 to 101) logs the start and builds the three streams; \<open>run_start ds\<close>
  is the state at that point for a source whose backing list is \<open>ds\<close>. The program's
  own source is \<open>DataSource_data\<close> (line 15).
\<close>

definition run_start :: "jsvalue list \<Rightarrow> pipeline_state" where
  "run_start ds =
     \<lparr>source_data = ds, index = 0, source_ended = False, heap = [],
      readable_buffer = [], transform_buffer = [], ticks = 0,
      status = Running, trace = [Starting]\<rparr>"

definition DataSource_data :: "jsvalue list" where
  "DataSource_data = [JString ''a'', JString ''b'', JString ''c'', JString ''d'', JString ''e'']"

subsection \<open>Reading the trace\<close>

text \<open>The records the source produced and the records the sink consumed, in order.\<close>

fun produced :: "event list \<Rightarrow> chunk list" where
  "produced [] = []"
| "produced (Pushing c # es) = c # produced es"
| "produced (e # es) = produced es"

fun sink_calls :: "event list \<Rightarrow> chunk list" where
  "sink_calls [] = []"
| "sink_calls (FinalResult c # es) = c # sink_calls es"
| "sink_calls (e # es) = sink_calls es"

fun transformed :: "event list \<Rightarrow> chunk list" where
  "transformed [] = []"
| "transformed (Transformed c # es) = c # transformed es"
| "transformed (e # es) = transformed es"

text \<open>
  Records in flight: produced by the source and not yet consumed by the sink.
\<close>

definition in_flight :: "pipeline_state \<Rightarrow> nat" where
  "in_flight st = length (produced (trace st)) - length (sink_calls (trace st))"

text \<open>
  A trace keeps forwarded records untouched when no stage assigns to a field of an
  object after that same stage has pushed the object.
\<close>

fun assigns_to :: "stage \<Rightarrow> nat \<Rightarrow> event \<Rightarrow> bool" where
  "assigns_to s a (Assign s' a' f) = (s = s' \<and> a = a')"
| "assigns_to s a e = False"

fun immutable_after_push :: "event list \<Rightarrow> bool" where
  "immutable_after_push [] = True"
| "immutable_after_push (Push s a # es) =
     ((\<forall>e \<in> set es. \<not> assigns_to s a e) \<and> immutable_after_push es)"
| "immutable_after_push (e # es) = immutable_after_push es"

subsection \<open>Example inputs\<close>

text \<open>
  A host clock that advances by 200 per reading, and the schedule that takes each of
  \<open>n\<close> records through all three stages before it reads the next.
\<close>

definition example_clock :: "nat \<Rightarrow> int" where
  "example_clock k = 1700000000000 + 200 * int k"

definition one_at_a_time :: "nat \<Rightarrow> action list" where
  "one_at_a_time n = concat (replicate n [Read, Xform, Write]) @ [Read, Finish]"



subsection \<open>The invariant of runs\<close>

text \<open>
  \<open>failed_count\<close> is 1 once a record has failed in the transform: that record left
  the source's buffer and never reached the transform's.
\<close>

fun failed_count :: "status \<Rightarrow> nat" where
  "failed_count (Errored e) = 1"
| "failed_count (Failed e) = 1"
| "failed_count s = 0"

text \<open>
  What every state of every run satisfies, whatever the schedule. Addresses are handed
  out in production order; the transform's buffer holds the addresses from the number
  consumed up to the number transformed, the source's buffer the ones from there up to
  the index. Objects not yet transformed are as the source built them, transformed ones
  are the transform of what the source built, and the snapshots the transform and the
  sink logged are the objects as they still are.
\<close>

definition inv :: "(nat \<Rightarrow> int) \<Rightarrow> jsvalue list \<Rightarrow> pipeline_state \<Rightarrow> bool" where
  "inv clock ds st \<longleftrightarrow>
     source_data st = ds \<and>
     index st \<le> length ds \<and>
     length (heap st) = index st \<and>
     (source_ended st \<longrightarrow> index st = length ds) \<and>
     length (sink_calls (trace st)) \<le> length (transformed (trace st)) \<and>
     length (transformed (trace st)) + failed_count (status st) \<le> index st \<and>
     transform_buffer st = [length (sink_calls (trace st))..<length (transformed (trace st))] \<and>
     readable_buffer st = [length (transformed (trace st)) + failed_count (status st)..<index st] \<and>
     length (produced (trace st)) = index st \<and>
     map data (produced (trace st)) = take (index st) ds \<and>
     (\<forall>a. length (transformed (trace st)) \<le> a \<and> a < index st \<longrightarrow>
          heap st ! a = produced (trace st) ! a) \<and>
     (\<forall>a < length (transformed (trace st)).
          \<exists>t. transform_chunk t (produced (trace st) ! a) = Inr (heap st ! a)) \<and>
     sink_calls (trace st) = take (length (sink_calls (trace st))) (heap st) \<and>
     transformed (trace st) = take (length (transformed (trace st))) (heap st) \<and>
     (\<forall>a < index st. \<exists>k < ticks st. timestamp (heap st ! a) = clock k) \<and>
     (\<forall>e. status st = Errored e \<or> status st = Failed e \<longrightarrow>
          call_toUpperCase (ds ! length (transformed (trace st))) = Inl e) \<and>
     (status st = Completed \<longrightarrow> source_ended st \<and> length (sink_calls (trace st)) = index st)"

text \<open>
  The trace part of the invariant: every object the transform has pushed has an address
  below the number transformed, so the transform never meets it again; every object the
  source has pushed is in the heap.
\<close>

definition trace_inv :: "pipeline_state \<Rightarrow> bool" where
  "trace_inv st \<longleftrightarrow>
     immutable_after_push (trace st) \<and>
     (\<forall>a. Push Transform a \<in> set (trace st) \<longrightarrow> a < length (transformed (trace st))) \<and>
     (\<forall>a. Push Source a \<in> set (trace st) \<longrightarrow> a < length (heap st))"

text \<open>
  A measure that every action of the host decreases: it bounds the length of every run.
\<close>

fun pending :: "status \<Rightarrow> nat" where
  "pending Running = 1"
| "pending (Errored e) = 1"
| "pending s = 0"

definition work_left :: "pipeline_state \<Rightarrow> nat" where
  "work_left st =
     3 * (length (source_data st) - index st) + (if source_ended st then 0 else 1)
       + 2 * length (readable_buffer st) + length (transform_buffer st) + pending (status st)"

section \<open>Basic facts\<close>






lemma produced_append: "produced (xs @ ys) = produced xs @ produced ys"
  by (induction xs rule: produced.induct) simp_all

lemma sink_calls_append: "sink_calls (xs @ ys) = sink_calls xs @ sink_calls ys"
  by (induction xs rule: sink_calls.induct) simp_all

lemma transformed_append: "transformed (xs @ ys) = transformed xs @ transformed ys"
  by (induction xs rule: transformed.induct) simp_all

lemma inv_run_start: "inv clock ds (run_start ds)"
  by (simp add: inv_def run_start_def)

lemma transform_chunk_timestamp:
  "transform_chunk t c = Inr c' \<Longrightarrow> timestamp c' = timestamp c"
  by (auto simp: transform_chunk_def split: sum.splits)

lemma transform_chunk_Inl:
  "transform_chunk t c = Inl e \<Longrightarrow> call_toUpperCase (data c) = Inl e"
  by (auto simp: transform_chunk_def split: sum.splits)

lemma upt_eq_ConsD: "[i..<j] = a # q \<Longrightarrow> i < j \<and> a = i \<and> q = [Suc i..<j]"
  by (cases "i < j") (auto simp: upt_conv_Cons)

lemma inv_Read:
  assumes I: "inv clock ds st" and S: "step clock Read st = Some st'"
  shows "inv clock ds st'"
proof (cases "index st \<ge> length (source_data st)")
  case True
  with S have st': "st' = st\<lparr>source_ended := True, trace := trace st @ [PushNull]\<rparr>"
    by (simp add: DataSource_read_def split: if_splits)
  from I True show ?thesis
    unfolding st' inv_def
    by (simp add: produced_append sink_calls_append transformed_append)
next
  case False
  with S have A: "active (status st)" and
    st': "st' = st\<lparr>index := index st + 1,
               heap := heap st @ [\<lparr>data = source_data st ! index st, timestamp = clock (ticks st),
                 transformedAt = None\<rparr>],
               readable_buffer := readable_buffer st @ [length (heap st)],
               ticks := Suc (ticks st),
               trace := trace st @ [Pushing \<lparr>data = source_data st ! index st, timestamp = clock (ticks st),
                 transformedAt = None\<rparr>, Push Source (length (heap st))]\<rparr>"
    by (simp_all add: DataSource_read_def Let_def split: if_splits)
  from I False show ?thesis
    unfolding st' inv_def
    apply (simp add: produced_append sink_calls_append transformed_append)
    apply (intro conjI)
    apply (auto simp: nth_append take_Suc_conv_app_nth less_Suc_eq)
    done
qed


lemma inv_Xform:
  assumes I: "inv clock ds st" and S: "step clock Xform st = Some st'"
  shows "inv clock ds st'"
proof -
  let ?nT = "length (transformed (trace st))"
  from S have R: "status st = Running"
    by (simp split: if_splits)
  from S R obtain a q where q1: "readable_buffer st = a # q"
    by (cases "readable_buffer st") simp_all
  from I R q1 have "[?nT..<index st] = a # q"
    by (simp add: inv_def)
  then have a: "a = ?nT" and lt: "?nT < index st" and q: "q = [Suc ?nT..<index st]"
    by (auto dest: upt_eq_ConsD)
  from I lt have hp: "heap st ! ?nT = produced (trace st) ! ?nT"
    by (simp add: inv_def)
  from I lt have len: "length (heap st) = index st"
    by (simp add: inv_def)
  show ?thesis
  proof (cases "transform_chunk (clock (ticks st)) (heap st ! ?nT)")
    case (Inl e)
    with S R q1 a lt len have
      st': "st' = st\<lparr>readable_buffer := q, trace := trace st @ [Received (heap st ! ?nT)],
                      status := Errored e\<rparr>"
      by (simp add: UppercaseTransform_transform_def Let_def)
    from I have "map data (produced (trace st)) = take (index st) ds"
      and "length (produced (trace st)) = index st"
      by (simp_all add: inv_def)
    with lt have "data (produced (trace st) ! ?nT) = ds ! ?nT"
      by (metis nth_map nth_take)
    with Inl hp have e: "call_toUpperCase (ds ! ?nT) = Inl e"
      by (auto dest: transform_chunk_Inl)
    from I R q lt e show ?thesis
      unfolding st' inv_def
      by (simp add: produced_append sink_calls_append transformed_append)
  next
    case (Inr c')
    with S R q1 a lt len have
      st': "st' = st\<lparr>readable_buffer := q, 
                      heap := (heap st)[?nT := c'],
                      transform_buffer := transform_buffer st @ [?nT],
                      ticks := Suc (ticks st),
                      trace := trace st @ [Received (heap st ! ?nT), Assign Transform ?nT Data,
                                              Assign Transform ?nT TransformedAt,
                                              Transformed c', Push Transform ?nT]\<rparr>"
      by (simp add: UppercaseTransform_transform_def Let_def)
    from Inr have ts: "timestamp c' = timestamp (heap st ! ?nT)"
      by (rule transform_chunk_timestamp)
    from I have old_t: "\<forall>a < ?nT. \<exists>t. transform_chunk t (produced (trace st) ! a) = Inr (heap st ! a)"
      and old_k: "\<forall>a < index st. \<exists>k < ticks st. timestamp (heap st ! a) = clock k"
      by (simp_all add: inv_def)
    have new_t: "\<forall>a < Suc ?nT. \<exists>t. transform_chunk t (produced (trace st) ! a)
                    = Inr ((heap st)[?nT := c'] ! a)"
    proof (intro allI impI)
      fix a assume "a < Suc ?nT"
      then consider "a = ?nT" | "a < ?nT" by arith
      then show "\<exists>t. transform_chunk t (produced (trace st) ! a) = Inr ((heap st)[?nT := c'] ! a)"
      proof cases
        case 1
        with Inr hp lt len show ?thesis by auto
      next
        case 2
        with old_t show ?thesis by simp
      qed
    qed
    have new_k: "\<forall>a < index st. \<exists>k < Suc (ticks st).
                    timestamp ((heap st)[?nT := c'] ! a) = clock k"
    proof (intro allI impI)
      fix a assume a: "a < index st"
      with old_k obtain k where k: "k < ticks st" "timestamp (heap st ! a) = clock k"
        by blast
      from a len ts have "timestamp ((heap st)[?nT := c'] ! a) = timestamp (heap st ! a)"
        by (cases "a = ?nT") simp_all
      with k show "\<exists>k < Suc (ticks st). timestamp ((heap st)[?nT := c'] ! a) = clock k"
        using less_Suc_eq by auto
    qed
    from I have "transformed (trace st) = take ?nT (heap st)"
      by (simp add: inv_def)
    with lt len have new_s: "transformed (trace st) @ [c'] = take (Suc ?nT) ((heap st)[?nT := c'])"
      by (simp add: take_Suc_conv_app_nth)
    from I R q lt Inr hp ts new_t new_k new_s show ?thesis
      unfolding st' inv_def
      by (simp add: produced_append sink_calls_append transformed_append)
  qed
qed

lemma inv_Write:
  assumes I: "inv clock ds st" and S: "step clock Write st = Some st'"
  shows "inv clock ds st'"
proof -
  let ?nW = "length (sink_calls (trace st))"
  let ?nT = "length (transformed (trace st))"
  from S have A: "active (status st)"
    by (simp split: if_splits)
  from S A obtain a q where q2: "transform_buffer st = a # q"
    by (cases "transform_buffer st") simp_all
  from I q2 have "[?nW..<?nT] = a # q"
    by (simp add: inv_def)
  then have a: "a = ?nW" and lt: "?nW < ?nT" and q: "q = [Suc ?nW..<?nT]"
    by (auto dest: upt_eq_ConsD)
  from I have len: "length (heap st) = index st" and le: "?nT \<le> index st"
    by (simp_all add: inv_def)
  from S A q2 a lt len le have
    st': "st' = st\<lparr>transform_buffer := q, trace := trace st @ [FinalResult (heap st ! ?nW)]\<rparr>"
    by (simp add: DataSink_write_def)
  from I have sc: "sink_calls (trace st) = take ?nW (heap st)"
    by (simp add: inv_def)
  from lt len le have "take (Suc ?nW) (heap st) = take ?nW (heap st) @ [heap st ! ?nW]"
    by (simp add: take_Suc_conv_app_nth)
  with sc have sc': "sink_calls (trace st) @ [heap st ! ?nW] = take (Suc ?nW) (heap st)"
    by simp
  from I q lt sc' A show ?thesis
    unfolding st' inv_def
    by (cases "status st") (simp_all add: produced_append sink_calls_append transformed_append)
qed

lemma inv_Finish:
  assumes I: "inv clock ds st" and S: "step clock Finish st = Some st'"
  shows "inv clock ds st'"
proof -
  from S have R: "status st = Running" "source_ended st" "readable_buffer st = []"
      "transform_buffer st = []"
    and st': "st' = st\<lparr>status := Completed, trace := trace st @ [PipelineFinished]\<rparr>"
    by (simp_all split: if_splits)
  from I R(1) have tb: "transform_buffer st
        = [length (sink_calls (trace st))..<length (transformed (trace st))]"
    and rb: "readable_buffer st = [length (transformed (trace st))..<index st]"
    and le: "length (sink_calls (trace st)) \<le> length (transformed (trace st))"
      "length (transformed (trace st)) \<le> index st"
    by (simp_all add: inv_def)
  from tb[symmetric] rb[symmetric] R le have eq: "length (transformed (trace st)) = index st"
      "length (sink_calls (trace st)) = index st"
    by auto
  from I R eq show ?thesis
    unfolding st' inv_def
    by (simp add: produced_append sink_calls_append transformed_append)
qed

lemma inv_Teardown:
  assumes I: "inv clock ds st" and S: "step clock Teardown st = Some st'"
  shows "inv clock ds st'"
proof -
  from S obtain e where R: "status st = Errored e"
    and st': "st' = st\<lparr>status := Failed e, trace := trace st @ [PipelineFailed e]\<rparr>"
    by (cases "status st") simp_all
  from I R show ?thesis
    unfolding st' inv_def
    by (simp add: produced_append sink_calls_append transformed_append)
qed

lemma inv_step: "inv clock ds st \<Longrightarrow> step clock act st = Some st' \<Longrightarrow> inv clock ds st'"
  by (cases act) (auto intro: inv_Read inv_Xform inv_Write inv_Finish inv_Teardown)

lemma inv_exec: "inv clock ds st \<Longrightarrow> exec clock acts st = Some st' \<Longrightarrow> inv clock ds st'"
  by (induction acts arbitrary: st) (auto split: option.splits intro: inv_step)

lemma inv_reachable: "exec clock acts (run_start ds) = Some st \<Longrightarrow> inv clock ds st"
  using inv_exec inv_run_start by blast

section \<open>Facts about runs\<close>

lemma inv_countsD:
  "inv clock ds st \<Longrightarrow>
     length (sink_calls (trace st)) \<le> length (transformed (trace st)) \<and>
     length (transformed (trace st)) + failed_count (status st) \<le> index st \<and>
     index st \<le> length ds \<and> length (heap st) = index st \<and>
     length (produced (trace st)) = index st"
  unfolding inv_def by blast

lemma transform_chunk_frame:
  "transform_chunk now c = Inr c' \<Longrightarrow> timestamp c' = timestamp c \<and> chunk.more c' = chunk.more c"
  by (auto simp: transform_chunk_def split: sum.splits)

lemma step_index_mono: "step clock act st = Some st' \<Longrightarrow> index st \<le> index st'"
  by (cases act)
     (auto simp: DataSource_read_def UppercaseTransform_transform_def DataSink_write_def Let_def
           split: if_splits list.splits sum.splits status.splits)

lemma exec_index_mono: "exec clock acts st = Some st' \<Longrightarrow> index st \<le> index st'"
proof (induction acts arbitrary: st)
  case Nil
  then show ?case by simp
next
  case (Cons a acts)
  then obtain s1 where "step clock a st = Some s1" and "exec clock acts s1 = Some st'"
    by (auto split: option.splits)
  with Cons.IH [of s1] step_index_mono [of clock a st s1] show ?case by simp
qed

lemma step_work_left: "step clock act st = Some st' \<Longrightarrow> work_left st' < work_left st"
  by (cases act)
     (auto simp: work_left_def DataSource_read_def UppercaseTransform_transform_def
                 DataSink_write_def Let_def
           split: if_splits list.splits sum.splits status.splits)

lemma exec_work_left: "exec clock acts st = Some st' \<Longrightarrow> length acts + work_left st' \<le> work_left st"
proof (induction acts arbitrary: st)
  case Nil
  then show ?case by simp
next
  case (Cons a acts)
  then obtain s1 where s: "step clock a st = Some s1" and e: "exec clock acts s1 = Some st'"
    by (auto split: option.splits)
  from Cons.IH [OF e] step_work_left [OF s] show ?case by simp
qed

lemma run_length_bound:
  "exec clock acts (run_start ds) = Some st \<Longrightarrow> length acts \<le> 3 * length ds + 2"
  using exec_work_left [of clock acts "run_start ds" st]
  by (simp add: work_left_def run_start_def)

lemma progress:
  assumes I: "inv clock ds st" and A: "active (status st)"
  shows "\<exists>a st'. step clock a st = Some st'"
proof (cases "status st")
  case Running
  show ?thesis
  proof (cases "source_ended st")
    case False
    with Running have "step clock Read st = Some (DataSource_read clock st)" by simp
    then show ?thesis by blast
  next
    case True
    show ?thesis
    proof (cases "readable_buffer st")
      case (Cons a q)
      with I Running have "[length (transformed (trace st))..<index st] = a # q"
        by (simp add: inv_def)
      then have "a < index st" by (auto dest: upt_eq_ConsD)
      with I have "a < length (heap st)" by (simp add: inv_def)
      with Running Cons have "step clock Xform st \<noteq> None"
        by (simp split: prod.splits option.splits)
      then show ?thesis by blast
    next
      case Nil
      note rb = Nil
      show ?thesis
      proof (cases "transform_buffer st")
        case Nil
        with Running True rb have "step clock Finish st \<noteq> None" by simp
        then show ?thesis by blast
      next
        case (Cons a q)
        with I have "[length (sink_calls (trace st))..<length (transformed (trace st))] = a # q"
          by (simp add: inv_def)
        then have "a < length (transformed (trace st))" by (auto dest: upt_eq_ConsD)
        with I have "a < length (heap st)" by (simp add: inv_def)
        with Running Cons have "step clock Write st \<noteq> None" by simp
        then show ?thesis by blast
      qed
    qed
  qed
next
  case (Errored e)
  then have "step clock Teardown st \<noteq> None" by simp
  then show ?thesis by blast
next
  case Completed
  with A show ?thesis by simp
next
  case (Failed e)
  with A show ?thesis by simp
qed

lemma no_error_on_strings:
  assumes "\<forall>v \<in> set ds. \<exists>s. v = JString s" and "exec clock acts (run_start ds) = Some st"
  shows "status st = Running \<or> status st = Completed"
proof -
  from assms(2) have I: "inv clock ds st" by (rule inv_reachable)
  have "\<not> (status st = Errored e \<or> status st = Failed e)" for e
  proof
    assume E: "status st = Errored e \<or> status st = Failed e"
    with I have c: "call_toUpperCase (ds ! length (transformed (trace st))) = Inl e"
      and "length (transformed (trace st)) + failed_count (status st) \<le> index st"
      and "index st \<le> length ds"
      by (auto simp: inv_def)
    with E have "length (transformed (trace st)) < length ds" by auto
    then have "ds ! length (transformed (trace st)) \<in> set ds" by simp
    with assms(1) obtain s where "ds ! length (transformed (trace st)) = JString s" by blast
    with c show False by simp
  qed
  then show ?thesis by (cases "status st") auto
qed

lemma successful_run_length:
  assumes "exec clock acts (run_start ds) = Some st" and "status st = Completed"
  shows "length (sink_calls (trace st)) = length ds"
proof -
  from assms(1) have I: "inv clock ds st" by (rule inv_reachable)
  with assms(2) show ?thesis by (simp add: inv_def)
qed

lemma step_empty_start:
  "step clock a (run_start []) = Some s \<Longrightarrow>
     a = Read \<and> s = (run_start [])\<lparr>source_ended := True, trace := [Starting, PushNull]\<rparr>"
  by (cases a) (simp_all add: run_start_def DataSource_read_def)

lemma step_empty_ended:
  "step clock a ((run_start [])\<lparr>source_ended := True, trace := [Starting, PushNull]\<rparr>) = Some s \<Longrightarrow>
     a = Finish \<and> s = (run_start [])\<lparr>source_ended := True, status := Completed,
                                     trace := [Starting, PushNull, PipelineFinished]\<rparr>"
  by (cases a) (simp_all add: run_start_def)

lemma step_empty_completed:
  "step clock a ((run_start [])\<lparr>source_ended := True, status := Completed,
                                     trace := [Starting, PushNull, PipelineFinished]\<rparr>) = None"
  by (cases a) (simp_all add: run_start_def)

lemma exec_empty_shape:
  assumes "exec clock acts (run_start []) = Some st"
  shows "acts = [] \<or> acts = [Read] \<or> acts = [Read, Finish]"
proof (cases acts)
  case Nil
  then show ?thesis by simp
next
  case (Cons a as)
  with assms obtain s1 where s1: "step clock a (run_start []) = Some s1"
    and e1: "exec clock as s1 = Some st"
    by (auto split: option.splits)
  from step_empty_start [OF s1] have a: "a = Read"
    and s1': "s1 = (run_start [])\<lparr>source_ended := True, trace := [Starting, PushNull]\<rparr>"
    by simp_all
  show ?thesis
  proof (cases as)
    case Nil
    with Cons a show ?thesis by simp
  next
    case (Cons b bs)
    with e1 obtain s2 where s2: "step clock b s1 = Some s2" and e2: "exec clock bs s2 = Some st"
      by (auto split: option.splits)
    from step_empty_ended [OF s2 [unfolded s1']] have b: "b = Finish"
      and s2': "s2 = (run_start [])\<lparr>source_ended := True, status := Completed,
                                     trace := [Starting, PushNull, PipelineFinished]\<rparr>"
      by simp_all
    have "bs = []"
    proof (cases bs)
      case Nil
      then show ?thesis .
    next
      case (Cons c cs)
      with e2 s2' step_empty_completed [of clock c] show ?thesis by simp
    qed
    with \<open>acts = a # as\<close> \<open>as = b # bs\<close> a b show ?thesis by simp
  qed
qed

lemma immutable_after_push_append:
  "immutable_after_push (xs @ ys) \<longleftrightarrow>
     immutable_after_push xs \<and> immutable_after_push ys \<and>
     (\<forall>s a. Push s a \<in> set xs \<longrightarrow> (\<forall>e \<in> set ys. \<not> assigns_to s a e))"
  by (induction xs rule: immutable_after_push.induct) auto

lemma immutable_after_push_nth:
  "immutable_after_push tr \<Longrightarrow> i < j \<Longrightarrow> j < length tr \<Longrightarrow> tr ! i = Push s a
     \<Longrightarrow> \<not> assigns_to s a (tr ! j)"
proof (induction tr arbitrary: i j rule: immutable_after_push.induct)
  case 1
  then show ?case by simp
next
  case (2 s' a' es)
  show ?case
  proof (cases i)
    case 0
    with 2 have "s' = s" "a' = a" by simp_all
    moreover from 2 0 obtain j' where "j = Suc j'" "j' < length es"
      by (cases j) simp_all
    ultimately show ?thesis using "2.prems"(1) by simp
  next
    case (Suc i')
    with 2 obtain j' where "j = Suc j'" "i' < j'" "j' < length es"
      by (cases j) simp_all
    with 2 Suc show ?thesis by simp
  qed
qed (auto simp: nth_Cons split: nat.splits)

lemma trace_inv_run_start: "trace_inv (run_start ds)"
  by (simp add: trace_inv_def run_start_def)

lemma trace_inv_step:
  assumes T: "trace_inv st" and I: "inv clock ds st" and S: "step clock act st = Some st'"
  shows "trace_inv st'"
proof (cases act)
  case Read
  with S T show ?thesis
    by (auto simp: trace_inv_def DataSource_read_def Let_def immutable_after_push_append
                   transformed_append less_Suc_eq
             split: if_splits)
next
  case Xform
  let ?nT = "length (transformed (trace st))"
  from S Xform have R: "status st = Running"
    by (simp split: if_splits)
  from S Xform R obtain a q where q1: "readable_buffer st = a # q"
    by (cases "readable_buffer st") simp_all
  from I R q1 have "[?nT..<index st] = a # q"
    by (simp add: inv_def)
  then have a: "a = ?nT" and lt: "?nT < index st"
    by (auto dest: upt_eq_ConsD)
  from T have np: "Push Transform ?nT \<notin> set (trace st)"
    by (auto simp: trace_inv_def)
  from S Xform R q1 a T np show ?thesis
    by (auto simp: trace_inv_def UppercaseTransform_transform_def Let_def
                   immutable_after_push_append transformed_append less_Suc_eq
             split: if_splits sum.splits)
next
  case Write
  with S T show ?thesis
    by (auto simp: trace_inv_def DataSink_write_def immutable_after_push_append
                   transformed_append
             split: if_splits list.splits)
next
  case Finish
  with S T show ?thesis
    by (auto simp: trace_inv_def immutable_after_push_append transformed_append
             split: if_splits)
next
  case Teardown
  with S T show ?thesis
    by (auto simp: trace_inv_def immutable_after_push_append transformed_append
             split: status.splits)
qed

lemma both_inv_exec:
  "inv clock ds st \<Longrightarrow> trace_inv st \<Longrightarrow> exec clock acts st = Some st'
     \<Longrightarrow> inv clock ds st' \<and> trace_inv st'"
proof (induction acts arbitrary: st)
  case Nil
  then show ?case by simp
next
  case (Cons a acts)
  from Cons.prems(3) obtain s1 where s: "step clock a st = Some s1"
    and e: "exec clock acts s1 = Some st'"
    by (auto split: option.splits)
  from Cons.prems(1) s have "inv clock ds s1" by (rule inv_step)
  moreover from Cons.prems(2,1) s have "trace_inv s1" by (rule trace_inv_step)
  ultimately show ?case using e by (rule Cons.IH)
qed

lemma trace_inv_reachable: "exec clock acts (run_start ds) = Some st \<Longrightarrow> trace_inv st"
  using both_inv_exec [OF inv_run_start trace_inv_run_start] by blast

lemma step_heap_stable:
  assumes I: "inv clock ds st" and S: "step clock act st = Some st'"
    and a: "a < length (transformed (trace st))"
  shows "heap st' ! a = heap st ! a \<and>
         length (transformed (trace st)) \<le> length (transformed (trace st'))"
proof (cases act)
  case Read
  from inv_countsD [OF I] a have "a < length (heap st)" by auto
  with S Read show ?thesis
    by (auto simp: DataSource_read_def Let_def nth_append transformed_append split: if_splits)
next
  case Xform
  let ?nT = "length (transformed (trace st))"
  from S Xform have R: "status st = Running"
    by (simp split: if_splits)
  from S Xform R obtain b q where q1: "readable_buffer st = b # q"
    by (cases "readable_buffer st") simp_all
  from I R q1 have "[?nT..<index st] = b # q"
    by (simp add: inv_def)
  then have b: "b = ?nT"
    by (auto dest: upt_eq_ConsD)
  from S Xform R q1 b a show ?thesis
    by (auto simp: UppercaseTransform_transform_def Let_def transformed_append
             split: if_splits sum.splits)
next
  case Write
  with S show ?thesis
    by (auto simp: DataSink_write_def transformed_append split: if_splits list.splits)
next
  case Finish
  with S show ?thesis
    by (auto simp: transformed_append split: if_splits)
next
  case Teardown
  with S show ?thesis
    by (auto simp: transformed_append split: status.splits)
qed

lemma exec_heap_stable:
  "inv clock ds st \<Longrightarrow> exec clock acts st = Some st' \<Longrightarrow> a < length (transformed (trace st))
     \<Longrightarrow> heap st' ! a = heap st ! a"
proof (induction acts arbitrary: st)
  case Nil
  then show ?case by simp
next
  case (Cons x acts)
  from Cons.prems(2) obtain s1 where s: "step clock x st = Some s1"
    and e: "exec clock acts s1 = Some st'"
    by (auto split: option.splits)
  from Cons.prems(1) s have I1: "inv clock ds s1" by (rule inv_step)
  from step_heap_stable [OF Cons.prems(1) s Cons.prems(3)]
  have h: "heap s1 ! a = heap st ! a" and l: "a < length (transformed (trace s1))"
    using Cons.prems(3) by auto
  from Cons.IH [OF I1 e l] h show ?case by simp
qed

lemma step_Read_heap:
  "step clock Read st = Some st' \<Longrightarrow> a < length (heap st) \<Longrightarrow> heap st' ! a = heap st ! a"
  by (auto simp: DataSource_read_def Let_def nth_append split: if_splits)

lemma step_Write_heap: "step clock Write st = Some st' \<Longrightarrow> heap st' = heap st"
  by (auto simp: DataSink_write_def split: if_splits list.splits)


section \<open>The claims\<close>

text \<open>
  C1 does not hold of the program. The comment of line 32 announces a delay before the
  next chunk is ready, but the \<open>await\<close> of line 33 stands after the push, and the host
  does not wait for the promise \<open>_read\<close> returns: it calls \<open>_read\<close> again at once. In the
  program's own run the host calls \<open>_read\<close> twice before anything is transformed
  or consumed. After these two calls the records a and b have both been produced and
  the sink has consumed nothing, so record b was requested before record a was
  consumed and two records are in flight.
\<close>

theorem second_record_requested_before_first_consumed:
  "exec example_clock [Read, Read] (run_start DataSource_data) \<noteq> None \<and>
   in_flight (the (exec example_clock [Read, Read] (run_start DataSource_data))) = 2 \<and>
   sink_calls (trace (the (exec example_clock [Read, Read] (run_start DataSource_data)))) = [] \<and>
   map data (produced (trace (the (exec example_clock [Read, Read] (run_start DataSource_data)))))
     = [JString ''a'', JString ''b'']"
  by code_simp


text \<open>
  C3. For every input sequence of length N, a run that resolves successfully invokes the
  sink exactly N times, and the i-th record the sink receives is the transform of the
  i-th record the source produced. This holds for every schedule of the host: the
  records the source logged carry the source's data in order, and the sink's records
  are, position by position, their transforms.
\<close>

theorem successful_run_consumes_all_in_order:
  assumes "exec clock acts (run_start ds) = Some st" and "status st = Completed"
  shows "length (sink_calls (trace st)) = length ds \<and>
         map data (produced (trace st)) = ds \<and>
         list_all2 (\<lambda>p c. \<exists>t. transform_chunk t p = Inr c)
           (produced (trace st)) (sink_calls (trace st))"
proof -
  from assms(1) have I: "inv clock ds st" by (rule inv_reachable)
  from I assms(2) have n: "index st = length ds" and w: "length (sink_calls (trace st)) = index st"
    by (simp_all add: inv_def)
  from I w have t: "length (transformed (trace st)) = index st"
    by (simp add: inv_def)
  from I have h: "length (heap st) = index st" and p: "length (produced (trace st)) = index st"
    and d: "map data (produced (trace st)) = take (index st) ds"
    and s: "sink_calls (trace st) = take (length (sink_calls (trace st))) (heap st)"
    and x: "\<forall>a < length (transformed (trace st)).
          \<exists>t. transform_chunk t (produced (trace st) ! a) = Inr (heap st ! a)"
    by (simp_all add: inv_def)
  from s w h have sh: "sink_calls (trace st) = heap st" by simp
  have "list_all2 (\<lambda>p c. \<exists>t. transform_chunk t p = Inr c) (produced (trace st)) (heap st)"
    using x t h p by (simp add: list_all2_conv_all_nth)
  with sh w n d show ?thesis by simp
qed

theorem successful_run_consumes_all_in_order_witness:
  "status (the (exec example_clock (one_at_a_time 5) (run_start DataSource_data))) = Completed \<and>
   length (sink_calls (trace (the (exec example_clock (one_at_a_time 5)
     (run_start DataSource_data))))) = 5 \<and>
   map data (sink_calls (trace (the (exec example_clock (one_at_a_time 5)
     (run_start DataSource_data)))))
     = [JString ''A'', JString ''B'', JString ''C'', JString ''D'', JString ''E'']"
proof -
  let ?st = "the (exec example_clock (one_at_a_time 5) (run_start DataSource_data))"
  have e: "exec example_clock (one_at_a_time 5) (run_start DataSource_data) = Some ?st"
    by code_simp
  have c: "status ?st = Completed"
    by code_simp
  have m: "map data (sink_calls (trace ?st))
     = [JString ''A'', JString ''B'', JString ''C'', JString ''D'', JString ''E'']"
    by code_simp
  from successful_run_consumes_all_in_order [OF e c]
  have "length (sink_calls (trace ?st)) = length DataSource_data" by simp
  then have "length (sink_calls (trace ?st)) = 5" by (simp add: DataSource_data_def)
  with c m show ?thesis by simp
qed



text \<open>
  C5. No stage assigns to a record after that stage has forwarded it. In the trace of
  every run no assignment by a stage to an object comes after the push of that object
  by the same stage; an object the transform has forwarded is never changed again, in
  any continuation of the run; a call of the source's hook changes no object the source
  has forwarded; a call of the sink's hook changes no object at all. The transform does
  update, in place, the object it received from the source, before it forwards it.
\<close>

theorem no_assignment_after_push:
  assumes "exec clock acts (run_start ds) = Some st"
  shows "(\<forall>i j s a f. i < j \<and> j < length (trace st) \<and> trace st ! i = Push s a
            \<longrightarrow> trace st ! j \<noteq> Assign s a f) \<and>
         (\<forall>a more st2. Push Transform a \<in> set (trace st) \<and> exec clock more st = Some st2
            \<longrightarrow> heap st2 ! a = heap st ! a) \<and>
         (\<forall>a st2. Push Source a \<in> set (trace st) \<and> step clock Read st = Some st2
            \<longrightarrow> heap st2 ! a = heap st ! a) \<and>
         (\<forall>st2. step clock Write st = Some st2 \<longrightarrow> heap st2 = heap st)"
proof -
  from assms have I: "inv clock ds st" by (rule inv_reachable)
  from assms have T: "trace_inv st" by (rule trace_inv_reachable)
  have 1: "\<forall>i j s a f. i < j \<and> j < length (trace st) \<and> trace st ! i = Push s a
            \<longrightarrow> trace st ! j \<noteq> Assign s a f"
  proof (intro allI impI)
    fix i j s a f
    assume h: "i < j \<and> j < length (trace st) \<and> trace st ! i = Push s a"
    from T have "immutable_after_push (trace st)" by (simp add: trace_inv_def)
    with h have "\<not> assigns_to s a (trace st ! j)"
      using immutable_after_push_nth [of "trace st" i j s a] by blast
    then show "trace st ! j \<noteq> Assign s a f" by auto
  qed
  have 2: "\<forall>a more st2. Push Transform a \<in> set (trace st) \<and> exec clock more st = Some st2
            \<longrightarrow> heap st2 ! a = heap st ! a"
  proof (intro allI impI)
    fix a more st2
    assume h: "Push Transform a \<in> set (trace st) \<and> exec clock more st = Some st2"
    with T have "a < length (transformed (trace st))" by (simp add: trace_inv_def)
    with I h show "heap st2 ! a = heap st ! a" by (auto intro: exec_heap_stable)
  qed
  have 3: "\<forall>a st2. Push Source a \<in> set (trace st) \<and> step clock Read st = Some st2
            \<longrightarrow> heap st2 ! a = heap st ! a"
  proof (intro allI impI)
    fix a st2
    assume h: "Push Source a \<in> set (trace st) \<and> step clock Read st = Some st2"
    with T have "a < length (heap st)" by (simp add: trace_inv_def)
    with h show "heap st2 ! a = heap st ! a" by (auto intro: step_Read_heap)
  qed
  have 4: "\<forall>st2. step clock Write st = Some st2 \<longrightarrow> heap st2 = heap st"
    by (auto intro: step_Write_heap)
  from 1 2 3 4 show ?thesis by blast
qed

theorem no_assignment_after_push_witness:
  "trace (the (exec example_clock [Read, Xform] (run_start DataSource_data))) ! 2 = Push Source 0 \<and>
   trace (the (exec example_clock [Read, Xform] (run_start DataSource_data))) ! 4
     = Assign Transform 0 Data \<and>
   trace (the (exec example_clock [Read, Xform] (run_start DataSource_data))) ! 4
     \<noteq> Assign Source 0 Data \<and>
   Push Transform 0 \<in> set (trace (the (exec example_clock [Read, Xform] (run_start DataSource_data)))) \<and>
   heap (the (exec example_clock [Read, Xform, Read, Write] (run_start DataSource_data))) ! 0
     = heap (the (exec example_clock [Read, Xform] (run_start DataSource_data))) ! 0"
proof -
  let ?st = "the (exec example_clock [Read, Xform] (run_start DataSource_data))"
  let ?s2 = "the (exec example_clock [Read, Xform, Read, Write] (run_start DataSource_data))"
  have e: "exec example_clock [Read, Xform] (run_start DataSource_data) = Some ?st"
    by code_simp
  have m: "exec example_clock [Read, Write] ?st = Some ?s2"
    by code_simp
  have p: "trace ?st ! 2 = Push Source 0" and q: "trace ?st ! 4 = Assign Transform 0 Data"
    and l: "4 < length (trace ?st)" and f: "Push Transform 0 \<in> set (trace ?st)"
    by code_simp+
  from no_assignment_after_push [OF e] have 1: "2 < (4::nat) \<and> 4 < length (trace ?st) \<and> trace ?st ! 2 = Push Source 0
            \<longrightarrow> trace ?st ! 4 \<noteq> Assign Source 0 Data"
    and 2: "Push Transform 0 \<in> set (trace ?st) \<and> exec example_clock [Read, Write] ?st = Some ?s2
            \<longrightarrow> heap ?s2 ! 0 = heap ?st ! 0"
    by blast+
  from 1 2 p q l f m show ?thesis by simp
qed

text \<open>
  C6. In every state of every run the source's index is at most the length of its data.
  A call of \<open>_read\<close> that yields a record advances the index by exactly one and yields
  the record at the old index; a call at the end leaves the index and signals the end.
  The index never decreases, and the k-th record produced carries position k of the
  data, so no position is used twice. (The index is a natural number: the code starts
  it at 0 and only increments it.)
\<close>

theorem cursor_within_bounds_advances_by_one:
  assumes "exec clock acts (run_start ds) = Some st"
  shows "index st \<le> length (source_data st) \<and> source_data st = ds \<and>
         map data (produced (trace st)) = take (index st) ds \<and>
         (index st < length (source_data st) \<longrightarrow>
            index (DataSource_read clock st) = index st + 1 \<and>
            produced (trace (DataSource_read clock st))
              = produced (trace st) @ [\<lparr>data = ds ! index st, timestamp = clock (ticks st),
                                         transformedAt = None\<rparr>]) \<and>
         (\<not> index st < length (source_data st) \<longrightarrow>
            index (DataSource_read clock st) = index st \<and>
            source_ended (DataSource_read clock st) \<and>
            produced (trace (DataSource_read clock st)) = produced (trace st)) \<and>
         (\<forall>more st2. exec clock more st = Some st2 \<longrightarrow> index st \<le> index st2)"
proof -
  from assms have I: "inv clock ds st" by (rule inv_reachable)
  then have a: "index st \<le> length (source_data st)" "source_data st = ds"
    "map data (produced (trace st)) = take (index st) ds"
    by (simp_all add: inv_def)
  have b: "index st < length (source_data st) \<longrightarrow>
            index (DataSource_read clock st) = index st + 1 \<and>
            produced (trace (DataSource_read clock st))
              = produced (trace st) @ [\<lparr>data = ds ! index st, timestamp = clock (ticks st),
                                         transformedAt = None\<rparr>]"
    using a(2) by (simp add: DataSource_read_def Let_def produced_append)
  have c: "\<not> index st < length (source_data st) \<longrightarrow>
            index (DataSource_read clock st) = index st \<and>
            source_ended (DataSource_read clock st) \<and>
            produced (trace (DataSource_read clock st)) = produced (trace st)"
    by (simp add: DataSource_read_def Let_def produced_append)
  have d: "\<forall>more st2. exec clock more st = Some st2 \<longrightarrow> index st \<le> index st2"
    by (simp add: exec_index_mono)
  from a b c d show ?thesis by blast
qed

theorem cursor_within_bounds_advances_by_one_witness:
  "index (the (exec example_clock [Read, Read] (run_start DataSource_data))) = 2 \<and>
   index (DataSource_read example_clock
      (the (exec example_clock [Read, Read] (run_start DataSource_data)))) = 3 \<and>
   index (the (exec example_clock (replicate 5 Read) (run_start DataSource_data))) = 5 \<and>
   index (DataSource_read example_clock
      (the (exec example_clock (replicate 5 Read) (run_start DataSource_data)))) = 5 \<and>
   map data (produced (trace (the (exec example_clock [Read, Read] (run_start DataSource_data)))))
     = [JString ''a'', JString ''b'']"
proof -
  let ?s2 = "the (exec example_clock [Read, Read] (run_start DataSource_data))"
  let ?s5 = "the (exec example_clock (replicate 5 Read) (run_start DataSource_data))"
  have e2: "exec example_clock [Read, Read] (run_start DataSource_data) = Some ?s2"
    by code_simp
  have e5: "exec example_clock (replicate 5 Read) (run_start DataSource_data) = Some ?s5"
    by code_simp
  have i2: "index ?s2 = 2" and i5: "index ?s5 = 5"
    and l2: "length (source_data ?s2) = 5" and l5: "length (source_data ?s5) = 5"
    by code_simp+
  from cursor_within_bounds_advances_by_one [OF e2] i2 l2 have a: "index (DataSource_read example_clock ?s2) = 3"
    and b: "map data (produced (trace ?s2)) = take 2 DataSource_data"
    by simp_all
  from cursor_within_bounds_advances_by_one [OF e5] i5 l5 have c: "index (DataSource_read example_clock ?s5) = 5" by simp
  from a b c i2 i5 show ?thesis by (simp add: DataSource_data_def)
qed



text \<open>
  C8. With an empty backing list the pipeline completes with no call of the sink. The
  run that reads once and finishes ends \<open>Completed\<close>: the first \<open>_read\<close> pushes \<open>null\<close>.
  Every run is a prefix of that run, so every run terminates within two steps; no run
  calls the sink; and a state that is not yet \<open>Completed\<close> can always take a step.
\<close>

theorem empty_source_completes_without_sink_calls:
  "(\<exists>st. exec clock [Read, Finish] (run_start []) = Some st \<and> status st = Completed \<and>
         sink_calls (trace st) = [] \<and> trace st = [Starting, PushNull, PipelineFinished]) \<and>
   (exec clock acts (run_start []) = Some st' \<longrightarrow>
      sink_calls (trace st') = [] \<and> (acts = [] \<or> acts = [Read] \<or> acts = [Read, Finish]) \<and>
      (status st' = Completed \<or> (\<exists>a s. step clock a st' = Some s)))"
proof (intro conjI impI)
  show "\<exists>st. exec clock [Read, Finish] (run_start []) = Some st \<and> status st = Completed \<and>
         sink_calls (trace st) = [] \<and> trace st = [Starting, PushNull, PipelineFinished]"
    by (simp add: run_start_def DataSource_read_def)
next
  assume e: "exec clock acts (run_start []) = Some st'"
  then have I: "inv clock [] st'" by (rule inv_reachable)
  from inv_countsD [OF I] show "sink_calls (trace st') = []" by auto
  from e show "acts = [] \<or> acts = [Read] \<or> acts = [Read, Finish]" by (rule exec_empty_shape)
  from no_error_on_strings [OF _ e] have "status st' = Running \<or> status st' = Completed" by simp
  then show "status st' = Completed \<or> (\<exists>a s. step clock a st' = Some s)"
    using progress [OF I] by auto
qed

theorem empty_source_completes_without_sink_calls_witness:
  "exec example_clock [Read] (run_start []) \<noteq> None \<and>
   sink_calls (trace (the (exec example_clock [Read] (run_start [])))) = [] \<and>
   (\<exists>a s. step example_clock a (the (exec example_clock [Read] (run_start []))) = Some s)"
proof -
  let ?st = "the (exec example_clock [Read] (run_start []))"
  have e: "exec example_clock [Read] (run_start []) = Some ?st"
    by code_simp
  have r: "status ?st = Running"
    by code_simp
  from empty_source_completes_without_sink_calls [of example_clock "[Read]" ?st] e r show ?thesis
    by (auto simp del: exec.simps step.simps)
qed

text \<open>
  C9. The program's own source holds five strings, so \<open>toUpperCase\<close> succeeds on every
  payload, no state of any run is in error or failed (the error branch of
  \<open>_transform\<close> is never taken), every run has at most 17 steps, a run that can go no
  further has completed, and a completed run has called the sink five times.
\<close>

theorem program_source_never_fails:
  assumes "exec clock acts (run_start DataSource_data) = Some st"
  shows "source_data st = DataSource_data \<and>
         (\<forall>v \<in> set (source_data st).
            \<exists>s. v = JString s \<and> call_toUpperCase v = Inr (JString (toUpperCase s))) \<and>
         (status st = Running \<or> status st = Completed) \<and>
         length acts \<le> 17 \<and>
         ((\<forall>a. step clock a st = None) \<longrightarrow> status st = Completed) \<and>
         (status st = Completed \<longrightarrow> length (sink_calls (trace st)) = 5)"
proof -
  have strs: "\<forall>v \<in> set DataSource_data. \<exists>s. v = JString s"
    by (simp add: DataSource_data_def)
  from assms have I: "inv clock DataSource_data st" by (rule inv_reachable)
  then have sd: "source_data st = DataSource_data" by (simp add: inv_def)
  from strs sd have a: "\<forall>v \<in> set (source_data st). \<exists>s. v = JString s \<and>
      call_toUpperCase v = Inr (JString (toUpperCase s))"
    by auto
  from no_error_on_strings [OF strs assms] have b: "status st = Running \<or> status st = Completed" .
  from run_length_bound [OF assms] have c: "length acts \<le> 17"
    by (simp add: DataSource_data_def)
  have d: "(\<forall>a. step clock a st = None) \<longrightarrow> status st = Completed"
    using progress [OF I] b by auto
  have e: "status st = Completed \<longrightarrow> length (sink_calls (trace st)) = 5"
    using successful_run_length [OF assms] by (simp add: DataSource_data_def)
  from sd a b c d e show ?thesis by blast
qed

theorem program_source_never_fails_witness:
  "status (the (exec example_clock (one_at_a_time 5) (run_start DataSource_data))) = Completed \<and>
   length (one_at_a_time 5) = 17 \<and>
   length (sink_calls (trace (the (exec example_clock (one_at_a_time 5)
      (run_start DataSource_data))))) = 5 \<and>
   (\<forall>a. step example_clock a (the (exec example_clock (one_at_a_time 5)
      (run_start DataSource_data))) = None)"
proof -
  let ?st = "the (exec example_clock (one_at_a_time 5) (run_start DataSource_data))"
  have e: "exec example_clock (one_at_a_time 5) (run_start DataSource_data) = Some ?st"
    by code_simp
  have c: "status ?st = Completed"
    and n: "length (one_at_a_time 5) = 17"
    by code_simp+
  have stuck: "step example_clock a ?st = None" for a
    using c by (cases a) (simp_all del: exec.simps)
  from program_source_never_fails [OF e] c n stuck show ?thesis by (simp del: exec.simps step.simps)
qed

text \<open>
  C10. The transform changes only \<open>data\<close> and \<open>transformedAt\<close>: the creation timestamp
  and every further field of the object are as received. A call of \<open>_transform\<close>,
  failing or not, leaves the object's creation timestamp and every other object as
  they were. In every run the records the sink consumes carry, in order, the creation
  timestamps the source wrote.
\<close>

theorem transform_keeps_other_fields:
  "(transform_chunk now c = Inr c' \<longrightarrow> timestamp c' = timestamp c \<and> chunk.more c' = chunk.more c) \<and>
   (UppercaseTransform_transform clock a s0 = (r, s1) \<and> a < length (heap s0) \<longrightarrow>
      timestamp (heap s1 ! a) = timestamp (heap s0 ! a) \<and>
      (\<forall>b. b \<noteq> a \<longrightarrow> heap s1 ! b = heap s0 ! b)) \<and>
   (exec clock acts (run_start ds) = Some st \<longrightarrow>
      map timestamp (sink_calls (trace st))
        = take (length (sink_calls (trace st))) (map timestamp (produced (trace st))))"
proof (intro conjI impI)
  assume "transform_chunk now c = Inr c'"
  then show "timestamp c' = timestamp c" "chunk.more c' = chunk.more c"
    by (simp_all add: transform_chunk_frame)
next
  assume h: "UppercaseTransform_transform clock a s0 = (r, s1) \<and> a < length (heap s0)"
  show "timestamp (heap s1 ! a) = timestamp (heap s0 ! a)"
  proof (cases "transform_chunk (clock (ticks s0)) (heap s0 ! a)")
    case (Inl e)
    with h show ?thesis by (auto simp: UppercaseTransform_transform_def Let_def)
  next
    case (Inr c2)
    then have "timestamp c2 = timestamp (heap s0 ! a)" by (rule transform_chunk_timestamp)
    with Inr h show ?thesis by (auto simp: UppercaseTransform_transform_def Let_def)
  qed
  from h show "\<forall>b. b \<noteq> a \<longrightarrow> heap s1 ! b = heap s0 ! b"
    by (auto simp: UppercaseTransform_transform_def Let_def split: sum.splits)
next
  assume "exec clock acts (run_start ds) = Some st"
  then have I: "inv clock ds st" by (rule inv_reachable)
  let ?nW = "length (sink_calls (trace st))"
  from I have le: "?nW \<le> length (transformed (trace st))"
    "length (transformed (trace st)) \<le> index st"
    and h: "length (heap st) = index st" and p: "length (produced (trace st)) = index st"
    and s: "sink_calls (trace st) = take ?nW (heap st)"
    and x: "\<forall>a < length (transformed (trace st)).
          \<exists>t. transform_chunk t (produced (trace st) ! a) = Inr (heap st ! a)"
    by (simp_all add: inv_def)
  have "map timestamp (take ?nW (heap st)) = take ?nW (map timestamp (produced (trace st)))"
  proof (rule nth_equalityI)
    show "length (map timestamp (take ?nW (heap st)))
        = length (take ?nW (map timestamp (produced (trace st))))"
      using le h p by simp
  next
    fix i assume "i < length (map timestamp (take ?nW (heap st)))"
    then have i: "i < ?nW" by simp
    with le x obtain t where "transform_chunk t (produced (trace st) ! i) = Inr (heap st ! i)"
      by (meson less_le_trans)
    then have "timestamp (heap st ! i) = timestamp (produced (trace st) ! i)"
      by (rule transform_chunk_timestamp)
    with i le h p show "map timestamp (take ?nW (heap st)) ! i
        = take ?nW (map timestamp (produced (trace st))) ! i"
      by simp
  qed
  with s show "map timestamp (sink_calls (trace st))
        = take (length (sink_calls (trace st))) (map timestamp (produced (trace st)))"
    by simp
qed

theorem transform_keeps_other_fields_witness:
  "transform_chunk 7 \<lparr>data = JString ''a'', timestamp = 3, transformedAt = None\<rparr>
     = Inr \<lparr>data = JString ''A'', timestamp = 3, transformedAt = Some 7\<rparr> \<and>
   map timestamp (sink_calls (trace (the (exec example_clock (one_at_a_time 5)
      (run_start DataSource_data)))))
     = map timestamp (produced (trace (the (exec example_clock (one_at_a_time 5)
      (run_start DataSource_data)))))"
proof -
  let ?st = "the (exec example_clock (one_at_a_time 5) (run_start DataSource_data))"
  let ?c = "\<lparr>data = JString ''a'', timestamp = 3, transformedAt = None\<rparr>"
  let ?c' = "\<lparr>data = JString ''A'', timestamp = 3, transformedAt = Some 7\<rparr>"
  have e: "exec example_clock (one_at_a_time 5) (run_start DataSource_data) = Some ?st"
    by code_simp
  have t: "transform_chunk 7 ?c = Inr ?c'"
    by code_simp
  have l: "length (sink_calls (trace ?st)) = 5" "length (produced (trace ?st)) = 5"
    by code_simp+
  from transform_keeps_other_fields [where now = 7 and c = ?c and c' = ?c' and clock = example_clock
      and acts = "one_at_a_time 5" and ds = DataSource_data and st = ?st] e t l
  show ?thesis by (simp del: exec.simps)
qed

end
